theory Spec2Isabelle
  imports Main
begin

section \<open>The child list of a scene-tree node (childrenHelperMixin.ts)\<close>

subsection \<open>Data model\<close>

text \<open>
  Containers are JavaScript objects that refer to each other (\<open>child.parent\<close>,
  \<open>parent.children[i]\<close>), so the model is an explicit store: a reference is a
  natural number and the store maps every reference to the fields of its object.
  Only the fields that the mixin reads or writes are kept. \<open>sortChildren\<close> and
  \<open>layerGroup\<close> are only tested for truthiness by the mixin: the first is a
  boolean here, the second an optional reference to the external layer group.
  Indices are JavaScript numbers in the source; the model takes the integers.
\<close>

type_synonym ref = nat

record container =
  children :: "ref list"
  parent :: "ref option"
  didChange :: bool
  didViewUpdate :: bool
  updateFlags :: nat
  sortDirty :: bool
  sortChildren :: bool
  layerGroup :: "ref option"

type_synonym heap = "ref \<Rightarrow> container"

text \<open>
  What leaves the mixin: the events it emits (with the emitter and the arguments
  of the source) and the calls it makes on the external layer group. The layer
  group is not part of the mixin: a call on it is recorded, and what the layer
  group does with it is outside the model.
\<close>

datatype event =
    ChildRemoved ref ref int
  | Removed ref
  | ChildAdded ref ref int
  | Added ref

datatype effect =
    Emit ref event
  | LayerGroupRemoveChild ref ref
  | LayerGroupAddChild ref ref

text \<open>
  Listeners run synchronously inside \<open>emit\<close>. The log therefore keeps, with every
  effect, the store as it is at that moment: this is what a listener that reads
  the tree observes.
\<close>

record world =
  nodes :: heap
  log :: "(effect \<times> heap) list"

datatype error = RangeError | IndexOutOfBounds | NotAChild

text \<open>
  A \<open>throw\<close> of the source is \<open>Inl\<close> with the error and the world at the point of
  the throw; a \<open>return\<close> is \<open>Inr\<close> with the value and the world at the return.
\<close>

type_synonym 'a result = "(error \<times> world) + ('a \<times> world)"

definition raised :: "'a result \<Rightarrow> error option" where
  "raised r = (case r of Inl (e, w) \<Rightarrow> Some e | Inr (v, w) \<Rightarrow> None)"

definition returned :: "'a result \<Rightarrow> 'a option" where
  "returned r = (case r of Inl (e, w) \<Rightarrow> None | Inr (v, w) \<Rightarrow> Some v)"

definition world_of :: "'a result \<Rightarrow> world" where
  "world_of r = (case r of Inl (e, w) \<Rightarrow> w | Inr (v, w) \<Rightarrow> w)"

definition modify :: "world \<Rightarrow> ref \<Rightarrow> (container \<Rightarrow> container) \<Rightarrow> world" where
  "modify w r f = w\<lparr>nodes := (nodes w)(r := f (nodes w r))\<rparr>"

definition perform :: "world \<Rightarrow> effect \<Rightarrow> world" where
  "perform w e = w\<lparr>log := log w @ [(e, nodes w)]\<rparr>"

definition emit :: "world \<Rightarrow> ref \<Rightarrow> event \<Rightarrow> world" where
  "emit w emitter ev = perform w (Emit emitter ev)"

definition isEmit :: "effect \<times> heap \<Rightarrow> bool" where
  "isEmit entry = (case fst entry of Emit emitter ev \<Rightarrow> True | _ \<Rightarrow> False)"

definition emitted :: "(effect \<times> heap) list \<Rightarrow> (effect \<times> heap) list" where
  "emitted entries = filter isEmit entries"

subsection \<open>Array primitives of JavaScript\<close>

text \<open>\<open>Array.prototype.indexOf\<close>: the first position of the element, or \<open>-1\<close>.\<close>

fun indexOf :: "'a list \<Rightarrow> 'a \<Rightarrow> int" where
  "indexOf [] x = -1"
| "indexOf (y # ys) x =
     (if y = x then 0 else (let r = indexOf ys x in if r = -1 then -1 else r + 1))"

text \<open>\<open>arr.splice(k, 1)\<close> and \<open>arr.splice(k, 0, x)\<close> for \<open>k \<ge> 0\<close>; a start beyond the
  length is clamped to the length, as \<open>take\<close> and \<open>drop\<close> do.\<close>

definition splice_remove :: "'a list \<Rightarrow> nat \<Rightarrow> 'a list" where
  "splice_remove arr k = take k arr @ drop (Suc k) arr"

definition splice_insert :: "'a list \<Rightarrow> nat \<Rightarrow> 'a \<Rightarrow> 'a list" where
  "splice_insert arr k x = take k arr @ x # drop k arr"

text \<open>Modelled from the spec: \<open>removeItems\<close> of \<open>utils/data/removeItems\<close> is imported by
  the mixin but its source is not part of the fragment. The spec describes the call
  \<open>removeItems(this.children, beginIndex, end)\<close> as "one bulk splice removing exactly
  that index range from children", the half-open range from \<open>beginIndex\<close> to \<open>end\<close>.
\<close>

definition removeItems :: "'a list \<Rightarrow> int \<Rightarrow> int \<Rightarrow> 'a list" where
  "removeItems arr startIdx endIdx = take (nat startIdx) arr @ drop (nat endIdx) arr"

subsection \<open>removeChildren\<close>

text \<open>
  The first loop of \<open>removeChildren\<close> (lines 36 to 49): \<open>i\<close> runs from \<open>end - 1\<close> down to
  \<open>beginIndex\<close>; \<open>this.children[i]\<close> is \<open>undefined\<close> outside the array, and the loop
  skips it.
\<close>

function removeLoop :: "world \<Rightarrow> ref \<Rightarrow> int \<Rightarrow> int \<Rightarrow> ref list \<Rightarrow> ref list \<times> world" where
  "removeLoop w this beginIndex i removed =
     (if i \<ge> beginIndex then
        (if i < 0 \<or> i \<ge> int (length (children (nodes w this)))
         then removeLoop w this beginIndex (i - 1) removed
         else
           (let child = children (nodes w this) ! nat i;
                w1 = (case layerGroup (nodes w this) of
                        Some lg \<Rightarrow> perform w (LayerGroupRemoveChild lg child)
                      | None \<Rightarrow> w);
                w2 = modify w1 child (\<lambda>c. c\<lparr>parent := None\<rparr>)
            in removeLoop w2 this beginIndex (i - 1) (removed @ [child])))
      else (removed, w))"
  by pat_completeness auto
termination
  by (relation "measure (\<lambda>(w, this, beginIndex, i, removed). nat (i - beginIndex + 1))") auto

declare removeLoop.simps [simp del]

text \<open>The second loop (lines 53 to 57): two events for each removed child.\<close>

function emitLoop :: "world \<Rightarrow> ref \<Rightarrow> ref list \<Rightarrow> nat \<Rightarrow> world" where
  "emitLoop w this removed i =
     (if i < length removed then
        (let w1 = emit w this (ChildRemoved (removed ! i) this (int i));
             w2 = emit w1 (removed ! i) (Removed this)
         in emitLoop w2 this removed (i + 1))
      else w)"
  by pat_completeness auto
termination
  by (relation "measure (\<lambda>(w, this, removed, i). length removed - i)") auto

declare emitLoop.simps [simp del]

definition removeChildren :: "world \<Rightarrow> ref \<Rightarrow> int option \<Rightarrow> int option \<Rightarrow> (ref list) result" where
  "removeChildren w this beginIndexArg endIndex =
     (let beginIndex = (case beginIndexArg of None \<Rightarrow> 0 | Some b \<Rightarrow> b);
          end' = (case endIndex of
                    None \<Rightarrow> int (length (children (nodes w this)))
                  | Some e \<Rightarrow> e);
          range = end' - beginIndex
      in if range > 0 \<and> range \<le> end' then
           (let (removed, w1) = removeLoop w this beginIndex (end' - 1) [];
                w2 = modify w1 this
                       (\<lambda>c. c\<lparr>children := removeItems (children c) beginIndex end'\<rparr>);
                w3 = emitLoop w2 this removed 0
            in Inr (removed, w3))
         else if range = 0 \<and> length (children (nodes w this)) = 0 then Inr ([], w)
         else Inl (RangeError, w))"

subsection \<open>Lookups\<close>

definition getChildAt :: "world \<Rightarrow> ref \<Rightarrow> int \<Rightarrow> ref result" where
  "getChildAt w this index =
     (if index < 0 \<or> index \<ge> int (length (children (nodes w this)))
      then Inl (IndexOutOfBounds, w)
      else Inr (children (nodes w this) ! nat index, w))"

definition getChildIndex :: "world \<Rightarrow> ref \<Rightarrow> ref \<Rightarrow> int result" where
  "getChildIndex w this child =
     (let index = indexOf (children (nodes w this)) child
      in if index = -1 then Inl (NotAChild, w) else Inr (index, w))"

subsection \<open>addChildAt and setChildIndex\<close>

text \<open>Lines 168 to 192 of \<open>addChildAt\<close>: the insertion, the flags, the layer group and
  the two events. \<open>children\<close> is the array of \<open>this\<close>, read after the detach.\<close>

definition addChildAt_insert :: "world \<Rightarrow> ref \<Rightarrow> ref \<Rightarrow> int \<Rightarrow> ref result" where
  "addChildAt_insert w this child index =
     (let w1 = modify w this
                 (\<lambda>c. c\<lparr>children :=
                         (if index = int (length (children c)) then children c @ [child]
                          else splice_insert (children c) (nat index) child)\<rparr>);
          w2 = modify w1 child
                 (\<lambda>c. c\<lparr>parent := Some this, didChange := True,
                         didViewUpdate := False, updateFlags := 15\<rparr>);
          w3 = (case layerGroup (nodes w2 this) of
                  Some lg \<Rightarrow> perform w2 (LayerGroupAddChild lg child)
                | None \<Rightarrow> w2);
          w4 = (if sortChildren (nodes w3 this)
                then modify w3 this (\<lambda>c. c\<lparr>sortDirty := True\<rparr>) else w3);
          w5 = emit w4 this (ChildAdded child this index);
          w6 = emit w5 child (Added this)
      in Inr (child, w6))"

definition addChildAt :: "world \<Rightarrow> ref \<Rightarrow> ref \<Rightarrow> int \<Rightarrow> ref result" where
  "addChildAt w this child index =
     (if index < 0 \<or> index > int (length (children (nodes w this)))
      then Inl (IndexOutOfBounds, w)
      else
        (case parent (nodes w child) of
           None \<Rightarrow> addChildAt_insert w this child index
         | Some p \<Rightarrow>
             (let currentIndex = indexOf (children (nodes w p)) child
              in if p = this \<and> currentIndex = index then Inr (child, w)
                 else
                   (let w1 = (if currentIndex \<noteq> -1
                              then modify w p
                                     (\<lambda>c. c\<lparr>children :=
                                             splice_remove (children c) (nat currentIndex)\<rparr>)
                              else w)
                    in addChildAt_insert w1 this child index))))"

definition setChildIndex :: "world \<Rightarrow> ref \<Rightarrow> ref \<Rightarrow> int \<Rightarrow> unit result" where
  "setChildIndex w this child index =
     (if index < 0 \<or> index \<ge> int (length (children (nodes w this)))
      then Inl (IndexOutOfBounds, w)
      else
        (case getChildIndex w this child of
           Inl x \<Rightarrow> Inl x
         | Inr (found, w1) \<Rightarrow>
             (case addChildAt w1 this child index of
                Inl x \<Rightarrow> Inl x
              | Inr (added, w2) \<Rightarrow> Inr ((), w2))))"

subsection \<open>swapChildren\<close>

definition swapChildren :: "world \<Rightarrow> ref \<Rightarrow> ref \<Rightarrow> ref \<Rightarrow> unit result" where
  "swapChildren w this child child2 =
     (if child = child2 then Inr ((), w)
      else
        (case getChildIndex w this child of
           Inl x \<Rightarrow> Inl x
         | Inr (index1, w1) \<Rightarrow>
             (case getChildIndex w1 this child2 of
                Inl x \<Rightarrow> Inl x
              | Inr (index2, w2) \<Rightarrow>
                  (let w3 = modify w2 this
                              (\<lambda>c. c\<lparr>children := (children c)[nat index1 := child2]\<rparr>);
                       w4 = modify w3 this
                              (\<lambda>c. c\<lparr>children := (children c)[nat index2 := child]\<rparr>)
                   in Inr ((), w4)))))"

subsection \<open>removeChildAt and removeChild\<close>

text \<open>Modelled from the spec: \<open>removeChild\<close> is declared by the mixin's interface and
  called by \<open>removeChildAt\<close>, but it is implemented elsewhere in the repository. The
  spec gives its contract for one child: the child is removed if it is currently a
  member, with a "childRemoved" event on the parent and a "removed" event on the
  child; "removing a non-member child is a no-op for that child, not an error". The
  call returns its first argument. The cleared parent back-reference (invariant I2
  of the spec) and the position passed with "childRemoved" complete the contract.
\<close>

definition removeChild :: "world \<Rightarrow> ref \<Rightarrow> ref \<Rightarrow> ref result" where
  "removeChild w this child =
     (let index = indexOf (children (nodes w this)) child
      in if index = -1 then Inr (child, w)
         else
           (let w1 = modify w this
                       (\<lambda>c. c\<lparr>children := splice_remove (children c) (nat index)\<rparr>);
                w2 = modify w1 child (\<lambda>c. c\<lparr>parent := None\<rparr>);
                w3 = emit w2 this (ChildRemoved child this index);
                w4 = emit w3 child (Removed this)
            in Inr (child, w4)))"

definition removeChildAt :: "world \<Rightarrow> ref \<Rightarrow> int \<Rightarrow> ref result" where
  "removeChildAt w this index =
     (case getChildAt w this index of
        Inl x \<Rightarrow> Inl x
      | Inr (child, w1) \<Rightarrow> removeChild w1 this child)"

subsection \<open>removeFromParent\<close>

definition removeFromParent :: "world \<Rightarrow> ref \<Rightarrow> unit result" where
  "removeFromParent w this =
     (case parent (nodes w this) of
        None \<Rightarrow> Inr ((), w)
      | Some p \<Rightarrow>
          (case removeChild w p this of
             Inl x \<Rightarrow> Inl x
           | Inr (removedChild, w1) \<Rightarrow> Inr ((), w1)))"

subsection \<open>Concrete trees\<close>

definition blank :: container where
  "blank = \<lparr>children = [], parent = None, didChange = False, didViewUpdate = False,
            updateFlags = 0, sortDirty = False, sortChildren = False, layerGroup = None\<rparr>"

text \<open>Node 0 with the children 1, 2 and 3, in this order; every other node is detached
  and has no children.\<close>

definition tree3 :: world where
  "tree3 = \<lparr>nodes = (\<lambda>r. blank)
              (0 := blank\<lparr>children := [1, 2, 3]\<rparr>,
               1 := blank\<lparr>parent := Some 0\<rparr>,
               2 := blank\<lparr>parent := Some 0\<rparr>,
               3 := blank\<lparr>parent := Some 0\<rparr>),
            log = []\<rparr>"

subsection \<open>Vocabulary of the properties\<close>

text \<open>The arguments of \<open>removeChildren\<close> after their defaults.\<close>

definition beginOf :: "int option \<Rightarrow> int" where
  "beginOf beginIndexArg = (case beginIndexArg of None \<Rightarrow> 0 | Some b \<Rightarrow> b)"

definition endOf :: "world \<Rightarrow> ref \<Rightarrow> int option \<Rightarrow> int" where
  "endOf w this endIndex =
     (case endIndex of None \<Rightarrow> int (length (children (nodes w this))) | Some e \<Rightarrow> e)"

text \<open>The elements of an array at the positions from \<open>b\<close> up to, not including, \<open>e\<close>.\<close>

definition slice :: "'a list \<Rightarrow> int \<Rightarrow> int \<Rightarrow> 'a list" where
  "slice arr b e = drop (nat b) (take (nat e) arr)"

text \<open>The two events of the \<open>i\<close>-th removed child, seen in the store \<open>h\<close>.\<close>

definition removalEvents :: "ref \<Rightarrow> ref list \<Rightarrow> heap \<Rightarrow> nat \<Rightarrow> (effect \<times> heap) list" where
  "removalEvents this removed h i =
     [(Emit this (ChildRemoved (removed ! i) this (int i)), h),
      (Emit (removed ! i) (Removed this), h)]"

text \<open>The insertion of \<open>addChildAt\<close>, lines 168 to 175, as one list function.\<close>

definition insertAt :: "'a list \<Rightarrow> int \<Rightarrow> 'a \<Rightarrow> 'a list" where
  "insertAt arr index x =
     (if index = int (length arr) then arr @ [x] else splice_insert arr (nat index) x)"

text \<open>What a call has added to the log.\<close>

definition newEntries :: "world \<Rightarrow> world \<Rightarrow> (effect \<times> heap) list" where
  "newEntries w w' = drop (length (log w)) (log w')"

section \<open>Auxiliary facts\<close>

lemma nodes_modify [simp]: "nodes (modify w r f) = (nodes w)(r := f (nodes w r))"
  by (simp add: modify_def)

lemma log_modify [simp]: "log (modify w r f) = log w"
  by (simp add: modify_def)

lemma nodes_perform [simp]: "nodes (perform w e) = nodes w"
  by (simp add: perform_def)

lemma log_perform [simp]: "log (perform w e) = log w @ [(e, nodes w)]"
  by (simp add: perform_def)

lemma nodes_emit [simp]: "nodes (emit w r ev) = nodes w"
  by (simp add: emit_def)

lemma log_emit [simp]: "log (emit w r ev) = log w @ [(Emit r ev, nodes w)]"
  by (simp add: emit_def)

lemma emitted_append [simp]: "emitted (xs @ ys) = emitted xs @ emitted ys"
  by (simp add: emitted_def)

lemma emitted_Nil [simp]: "emitted [] = []"
  by (simp add: emitted_def)

lemma emitted_Emit [simp]: "emitted ((Emit r ev, h) # xs) = (Emit r ev, h) # emitted xs"
  by (simp add: emitted_def isEmit_def)

lemma emitted_LayerRemove [simp]: "emitted ((LayerGroupRemoveChild g c, h) # xs) = emitted xs"
  by (simp add: emitted_def isEmit_def)

lemma emitted_LayerAdd [simp]: "emitted ((LayerGroupAddChild g c, h) # xs) = emitted xs"
  by (simp add: emitted_def isEmit_def)

text \<open>The first loop never touches a children array.\<close>

lemma removeLoop_children:
  "children (nodes (snd (removeLoop w this b i removed)) n) = children (nodes w n)"
proof (induction w this b i removed rule: removeLoop.induct)
  case (1 w this b i removed)
  show ?case
  proof (cases "i \<ge> b")
    case False
    then show ?thesis by (subst removeLoop.simps) simp
  next
    case True
    show ?thesis
    proof (cases "i < 0 \<or> i \<ge> int (length (children (nodes w this)))")
      case out: True
      with True 1(1) show ?thesis by (subst removeLoop.simps) simp
    next
      case inside: False
      with True 1(2) show ?thesis
        by (subst removeLoop.simps) (simp add: Let_def split: option.splits)
    qed
  qed
qed

text \<open>What the first loop collects.\<close>

lemma removeLoop_removed:
  "0 \<le> b \<Longrightarrow>
   fst (removeLoop w this b i removed) =
     removed @ rev (drop (nat b) (take (nat (i + 1)) (children (nodes w this))))"
proof (induction w this b i removed rule: removeLoop.induct)
  case (1 w this b i removed)
  let ?ch = "children (nodes w this)"
  show ?case
  proof (cases "i \<ge> b")
    case False
    with 1(3) have "nat (i + 1) \<le> nat b" by simp
    then have "drop (nat b) (take (nat (i + 1)) ?ch) = []" by simp
    with False show ?thesis by (subst removeLoop.simps) simp
  next
    case True
    show ?thesis
    proof (cases "i < 0 \<or> i \<ge> int (length ?ch)")
      case out: True
      with True 1(3) have big: "length ?ch \<le> nat i" by linarith
      have "take (nat (i + 1)) ?ch = take (nat (i - 1 + 1)) ?ch"
        using big by simp
      with True out 1(1) 1(3) show ?thesis by (subst removeLoop.simps) simp
    next
      case inside: False
      then have lt: "nat i < length ?ch" and i0: "0 \<le> i" by linarith+
      have suc: "nat (i + 1) = Suc (nat i)" using i0 by simp
      have bi: "nat b \<le> nat i" using True 1(3) by simp
      have "drop (nat b) (take (nat (i + 1)) ?ch) = drop (nat b) (take (nat i) ?ch) @ [?ch ! nat i]"
        using lt bi by (simp add: suc take_Suc_conv_app_nth)
      with True inside 1(2) 1(3) show ?thesis
        by (subst removeLoop.simps) (simp add: Let_def split: option.splits)
    qed
  qed
qed

text \<open>The store after the first loop: the collected children have lost their parent,
  nothing else has changed.\<close>

lemma removeLoop_nodes:
  "0 \<le> b \<Longrightarrow>
   nodes (snd (removeLoop w this b i removed)) =
     (\<lambda>n. if n \<in> set (drop (nat b) (take (nat (i + 1)) (children (nodes w this))))
          then (nodes w n)\<lparr>parent := None\<rparr> else nodes w n)"
proof (induction w this b i removed rule: removeLoop.induct)
  case (1 w this b i removed)
  let ?ch = "children (nodes w this)"
  show ?case
  proof (cases "i \<ge> b")
    case False
    with 1(3) have "nat (i + 1) \<le> nat b" by simp
    then have "drop (nat b) (take (nat (i + 1)) ?ch) = []" by simp
    with False show ?thesis by (subst removeLoop.simps) simp
  next
    case True
    show ?thesis
    proof (cases "i < 0 \<or> i \<ge> int (length ?ch)")
      case out: True
      with True 1(3) have big: "length ?ch \<le> nat i" by linarith
      have "take (nat (i + 1)) ?ch = take (nat (i - 1 + 1)) ?ch"
        using big by simp
      with True out 1(1) 1(3) show ?thesis by (subst removeLoop.simps) simp
    next
      case inside: False
      then have lt: "nat i < length ?ch" and i0: "0 \<le> i" by linarith+
      have suc: "nat (i + 1) = Suc (nat i)" using i0 by simp
      have bi: "nat b \<le> nat i" using True 1(3) by simp
      have split: "drop (nat b) (take (nat (i + 1)) ?ch) = drop (nat b) (take (nat i) ?ch) @ [?ch ! nat i]"
        using lt bi by (simp add: suc take_Suc_conv_app_nth)
      define w1 where "w1 = (case layerGroup (nodes w this) of
                        Some lg \<Rightarrow> perform w (LayerGroupRemoveChild lg (?ch ! nat i))
                      | None \<Rightarrow> w)"
      define w2 where "w2 = modify w1 (?ch ! nat i) (\<lambda>c. c\<lparr>parent := None\<rparr>)"
      have n1: "nodes w1 = nodes w" by (simp add: w1_def split: option.splits)
      have n2: "nodes w2 = (nodes w)(?ch ! nat i := (nodes w (?ch ! nat i))\<lparr>parent := None\<rparr>)"
        by (simp add: w2_def n1)
      have ch2: "children (nodes w2 this) = ?ch" by (simp add: n2)
      have step: "removeLoop w this b i removed = removeLoop w2 this b (i - 1) (removed @ [?ch ! nat i])"
        using True inside by (subst removeLoop.simps) (simp add: Let_def w1_def w2_def)
      have ih: "nodes (snd (removeLoop w2 this b (i - 1) (removed @ [?ch ! nat i]))) =
          (\<lambda>n. if n \<in> set (drop (nat b) (take (nat (i - 1 + 1)) (children (nodes w2 this))))
               then (nodes w2 n)\<lparr>parent := None\<rparr> else nodes w2 n)"
        using 1(2)[OF True inside refl, of w1 w2] 1(3) by (simp add: w1_def w2_def)
      show ?thesis
        unfolding step ih ch2 split by (auto simp: n2 fun_eq_iff)
    qed
  qed
qed

text \<open>The first loop only logs calls on the layer group.\<close>

lemma removeLoop_log:
  "\<exists>calls. log (snd (removeLoop w this b i removed)) = log w @ calls \<and> emitted calls = []"
proof (induction w this b i removed rule: removeLoop.induct)
  case (1 w this b i removed)
  let ?ch = "children (nodes w this)"
  show ?case
  proof (cases "i \<ge> b")
    case False
    then show ?thesis by (subst removeLoop.simps) simp
  next
    case True
    show ?thesis
    proof (cases "i < 0 \<or> i \<ge> int (length ?ch)")
      case out: True
      with True 1(1) show ?thesis by (subst removeLoop.simps) simp
    next
      case inside: False
      define w1 where "w1 = (case layerGroup (nodes w this) of
                        Some lg \<Rightarrow> perform w (LayerGroupRemoveChild lg (?ch ! nat i))
                      | None \<Rightarrow> w)"
      define w2 where "w2 = modify w1 (?ch ! nat i) (\<lambda>c. c\<lparr>parent := None\<rparr>)"
      have l2: "\<exists>c1. log w2 = log w @ c1 \<and> emitted c1 = []"
        by (simp add: w2_def w1_def split: option.splits)
      have step: "removeLoop w this b i removed = removeLoop w2 this b (i - 1) (removed @ [?ch ! nat i])"
        using True inside by (subst removeLoop.simps) (simp add: Let_def w1_def w2_def)
      have ih: "\<exists>calls. log (snd (removeLoop w2 this b (i - 1) (removed @ [?ch ! nat i]))) = log w2 @ calls
            \<and> emitted calls = []"
        using 1(2)[OF True inside refl, of w1 w2] by (simp add: w1_def w2_def)
      from l2 ih show ?thesis unfolding step by auto
    qed
  qed
qed

text \<open>The second loop changes no node and logs two events for each removed child.\<close>

lemma emitLoop_nodes: "nodes (emitLoop w this removed i) = nodes w"
  by (induction w this removed i rule: emitLoop.induct)
     (subst emitLoop.simps, simp add: Let_def)

lemma emitLoop_log:
  "log (emitLoop w this removed i) =
     log w @ concat (map (removalEvents this removed (nodes w)) [i ..< length removed])"
proof (induction w this removed i rule: emitLoop.induct)
  case (1 w this removed i)
  show ?case
  proof (cases "i < length removed")
    case True
    with 1 show ?thesis
      by (subst emitLoop.simps) (simp add: Let_def upt_conv_Cons removalEvents_def [abs_def])
  next
    case False
    then show ?thesis by (subst emitLoop.simps) simp
  qed
qed

lemma removeChildren_valid:
  assumes b: "b = beginOf bA" and e: "e = endOf w this eA"
    and ch: "ch = children (nodes w this)"
    and b0: "0 \<le> b" and be: "b < e"
    and removed: "removed = rev (slice ch b e)"
    and cleared: "cleared = (\<lambda>n. if n \<in> set removed then (nodes w n)\<lparr>parent := None\<rparr> else nodes w n)"
    and final: "final = cleared(this := (cleared this)\<lparr>children := removeItems ch b e\<rparr>)"
  shows "\<exists>calls w'. removeChildren w this bA eA = Inr (removed, w') \<and>
           nodes w' = final \<and>
           log w' = log w @ calls @
                    concat (map (removalEvents this removed final) [0 ..< length removed]) \<and>
           emitted calls = []"
proof -
  obtain r1 w1 where loop: "removeLoop w this b (e - 1) [] = (r1, w1)"
    by (cases "removeLoop w this b (e - 1) []") auto
  have r1: "r1 = removed"
    using removeLoop_removed[OF b0, of w this "e - 1" "[]"] loop
    by (simp add: removed slice_def ch)
  have n1: "nodes w1 = cleared"
    using removeLoop_nodes[OF b0, of w this "e - 1" "[]"] loop
    by (simp add: cleared removed slice_def ch)
  have ch1: "children (nodes w1 this) = ch"
    using removeLoop_children[of w this b "e - 1" "[]" this] loop by (simp add: ch)
  obtain calls where calls: "log w1 = log w @ calls" "emitted calls = []"
    using removeLoop_log[of w this b "e - 1" "[]"] loop by auto
  define w2 where "w2 = modify w1 this (\<lambda>c. c\<lparr>children := removeItems (children c) b e\<rparr>)"
  define w3 where "w3 = emitLoop w2 this removed 0"
  have n2: "nodes w2 = final"
    using ch1 by (simp add: w2_def n1 final)
  have n3: "nodes w3 = final"
    by (simp add: w3_def emitLoop_nodes n2)
  have l3: "log w3 = log w @ calls @
           concat (map (removalEvents this removed final) [0 ..< length removed])"
  proof -
    have "log w2 = log w @ calls" by (simp add: w2_def calls)
    then show ?thesis by (simp add: w3_def emitLoop_log n2)
  qed
  have "removeChildren w this bA eA = Inr (removed, w3)"
    using b0 be loop
    by (simp add: removeChildren_def Let_def b[symmetric, unfolded beginOf_def]
        e[symmetric, unfolded endOf_def] r1 w2_def w3_def)
  with n3 l3 calls(2) show ?thesis by blast
qed

lemma removeChildren_empty:
  assumes "beginOf bA = endOf w this eA" and "children (nodes w this) = []"
  shows "removeChildren w this bA eA = Inr ([], w)"
  using assms by (simp add: removeChildren_def Let_def beginOf_def endOf_def)

lemma removeChildren_raises:
  assumes "\<not> (0 \<le> beginOf bA \<and> beginOf bA < endOf w this eA)"
    and "\<not> (beginOf bA = endOf w this eA \<and> children (nodes w this) = [])"
  shows "removeChildren w this bA eA = Inl (RangeError, w)"
  using assms by (auto simp add: removeChildren_def Let_def beginOf_def endOf_def)

lemma indexOf_ge: "- 1 \<le> indexOf xs x"
  by (induction xs) (auto simp: Let_def)

lemma indexOf_absent: "indexOf xs x = - 1 \<longleftrightarrow> x \<notin> set xs"
proof (induction xs)
  case Nil
  then show ?case by simp
next
  case (Cons y ys)
  have "- 1 \<le> indexOf ys x" by (rule indexOf_ge)
  with Cons show ?case by (auto simp: Let_def)
qed

lemma indexOf_member:
  "x \<in> set xs \<Longrightarrow>
   0 \<le> indexOf xs x \<and> nat (indexOf xs x) < length xs \<and> xs ! nat (indexOf xs x) = x"
proof (induction xs)
  case Nil
  then show ?case by simp
next
  case (Cons y ys)
  show ?case
  proof (cases "y = x")
    case True
    then show ?thesis by simp
  next
    case False
    with Cons.prems have mem: "x \<in> set ys" by simp
    then have ne: "indexOf ys x \<noteq> - 1" by (simp add: indexOf_absent)
    from Cons.IH[OF mem] have ih: "0 \<le> indexOf ys x" "nat (indexOf ys x) < length ys"
      "ys ! nat (indexOf ys x) = x" by simp_all
    have "nat (indexOf ys x + 1) = Suc (nat (indexOf ys x))" using ih(1) by simp
    with False ne ih show ?thesis by (simp add: Let_def)
  qed
qed

lemma indexOf_first:
  "k < length xs \<Longrightarrow> xs ! k = x \<Longrightarrow> x \<notin> set (take k xs) \<Longrightarrow> indexOf xs x = int k"
proof (induction xs arbitrary: k)
  case Nil
  then show ?case by simp
next
  case (Cons y ys)
  show ?case
  proof (cases k)
    case 0
    with Cons.prems show ?thesis by simp
  next
    case (Suc j)
    with Cons.prems have "j < length ys" "ys ! j = x" "x \<notin> set (take j ys)" "y \<noteq> x"
      by auto
    with Cons.IH[of j] Suc show ?thesis by (simp add: Let_def)
  qed
qed

lemma indexOf_distinct:
  assumes "distinct xs" "k < length xs"
  shows "indexOf xs (xs ! k) = int k"
proof -
  have "xs ! k \<notin> set (take k xs)"
  proof
    assume "xs ! k \<in> set (take k xs)"
    then obtain j where "j < length (take k xs)" "take k xs ! j = xs ! k"
      by (auto simp: in_set_conv_nth)
    then have "j < k" "xs ! j = xs ! k" using assms(2) by simp_all
    with assms show False by (simp add: nth_eq_iff_index_eq)
  qed
  with assms(2) show ?thesis by (simp add: indexOf_first)
qed

lemma insertAt_nth:
  "0 \<le> index \<Longrightarrow> index \<le> int (length arr) \<Longrightarrow>
   nat index < length (insertAt arr index x) \<and> insertAt arr index x ! nat index = x"
  by (auto simp: insertAt_def splice_insert_def nth_append)

lemma insertAt_member: "x \<in> set (insertAt arr index x)"
  by (simp add: insertAt_def splice_insert_def)

lemma addChildAt_insert_returns:
  "\<exists>w' calls. addChildAt_insert w this child index = Inr (child, w') \<and>
     children (nodes w' this) = insertAt (children (nodes w this)) index child \<and>
     parent (nodes w' child) = Some this \<and>
     log w' = log w @ calls @
        [(Emit this (ChildAdded child this index), nodes w'), (Emit child (Added this), nodes w')] \<and>
     emitted calls = []"
  by (cases "layerGroup (nodes w this)"; cases "this = child")
     (simp_all add: addChildAt_insert_def Let_def insertAt_def)

lemma splice_remove_length:
  "k < length arr \<Longrightarrow> length (splice_remove arr k) = length arr - 1"
  by (simp add: splice_remove_def)


text \<open>Errors and the world at the throw.\<close>

lemma newEntries_append [simp]: "log w' = log w @ xs \<Longrightarrow> newEntries w w' = xs"
  by (simp add: newEntries_def)

lemma addChildAt_raises:
  assumes "addChildAt w P c i = Inl x"
  shows "x = (IndexOutOfBounds, w)"
proof -
  have ins: "addChildAt_insert w0 P c i \<noteq> Inl x" for w0
    using addChildAt_insert_returns[of w0 P c i] by auto
  show ?thesis
  proof (cases "i < 0 \<or> i > int (length (children (nodes w P)))")
    case True
    with assms show ?thesis by (auto simp: addChildAt_def)
  next
    case False
    with assms ins show ?thesis
      by (auto simp: addChildAt_def Let_def split: option.splits if_splits)
  qed
qed

lemma removeChildren_raises_same:
  assumes "removeChildren w P bA eA = Inl (err, w')"
  shows "w' = w"
  using assms
  by (auto simp: removeChildren_def Let_def split: if_splits prod.splits)

lemma removeChild_returns: "removeChild w P c \<noteq> Inl x"
  by (simp add: removeChild_def Let_def)

lemma removeChildAt_raises_same:
  assumes "removeChildAt w P i = Inl (err, w')"
  shows "w' = w"
  using assms removeChild_returns[of w P]
  by (auto simp: removeChildAt_def getChildAt_def split: if_splits)

lemma setChildIndex_raises_same:
  assumes "setChildIndex w P c i = Inl (err, w')"
  shows "w' = w"
proof (cases "i < 0 \<or> i \<ge> int (length (children (nodes w P)))")
  case True
  with assms show ?thesis by (auto simp: setChildIndex_def)
next
  case False
  show ?thesis
  proof (cases "indexOf (children (nodes w P)) c = - 1")
    case True
    with assms False show ?thesis
      by (auto simp: setChildIndex_def getChildIndex_def Let_def)
  next
    case found: False
    show ?thesis
    proof (cases "addChildAt w P c i")
      case (Inl x)
      from addChildAt_raises[OF this] Inl assms False found show ?thesis
        by (auto simp: setChildIndex_def getChildIndex_def Let_def)
    next
      case (Inr y)
      with assms False found show ?thesis
        by (auto simp: setChildIndex_def getChildIndex_def Let_def split: prod.splits)
    qed
  qed
qed

lemma swapChildren_raises_same:
  assumes "swapChildren w P c c2 = Inl (err, w')"
  shows "w' = w"
  using assms
  by (auto simp: swapChildren_def getChildIndex_def Let_def split: if_splits)

text \<open>The definitions that a run on a concrete tree unfolds.\<close>

lemmas run_defs =
  addChildAt_def addChildAt_insert_def getChildAt_def getChildIndex_def modify_def
  emit_def perform_def splice_insert_def splice_remove_def Let_def
  returned_def raised_def world_of_def tree3_def blank_def


text \<open>Ranges of an array.\<close>

lemma slice_nth:
  assumes "0 \<le> b" "b \<le> e" "e \<le> int (length arr)"
  shows "slice arr b e = map ((!) arr) [nat b ..< nat e]"
proof (rule nth_equalityI)
  show "length (slice arr b e) = length (map ((!) arr) [nat b ..< nat e])"
    using assms by (simp add: slice_def)
next
  fix k assume "k < length (slice arr b e)"
  then show "slice arr b e ! k = map ((!) arr) [nat b ..< nat e] ! k"
    using assms by (simp add: slice_def)
qed

lemma slice_length:
  assumes "0 \<le> b" "b \<le> e" "e \<le> int (length arr)"
  shows "length (slice arr b e) = nat (e - b)"
  using assms by (simp add: slice_def)

lemma removeItems_length:
  assumes "0 \<le> b" "b \<le> e" "e \<le> int (length arr)"
  shows "length (removeItems arr b e) = length arr - nat (e - b)"
  using assms by (simp add: removeItems_def)

lemma slice_removeItems_disjoint:
  assumes "distinct arr" "0 \<le> b" "b \<le> e"
  shows "set (slice arr b e) \<inter> set (removeItems arr b e) = {}"
proof -
  have be: "nat b \<le> nat e" using assms by simp
  have "take (nat e) arr = take (nat b) (take (nat e) arr) @ drop (nat b) (take (nat e) arr)"
    by (simp only: append_take_drop_id)
  then have te: "take (nat e) arr = take (nat b) arr @ slice arr b e"
    using be by (simp add: slice_def min_def)
  have "arr = take (nat e) arr @ drop (nat e) arr" by simp
  then have "arr = take (nat b) arr @ slice arr b e @ drop (nat e) arr"
    using te by simp
  then have "distinct (take (nat b) arr @ slice arr b e @ drop (nat e) arr)"
    using assms(1) by simp
  then show ?thesis by (auto simp: removeItems_def)
qed

lemmas remove_defs =
  removeChildren_def removeLoop.simps emitLoop.simps removeItems_def modify_def
  emit_def perform_def Let_def returned_def raised_def world_of_def tree3_def blank_def

lemma removalEvents_snapshots:
  "\<forall>entry \<in> set (concat (map (removalEvents this removed h) ks)). snd entry = h"
  by (auto simp: removalEvents_def)

text \<open>Every return of \<open>removeChildren\<close>, in one statement.\<close>

lemma removeChildren_returns:
  assumes ret: "removeChildren w P bA eA = Inr (removed, w')"
  shows "removed = rev (slice (children (nodes w P)) (beginOf bA) (endOf w P eA)) \<and>
         children (nodes w' P) =
           removeItems (children (nodes w P)) (beginOf bA) (endOf w P eA) \<and>
         (\<forall>c \<in> set removed. parent (nodes w' c) = None) \<and>
         emitted (newEntries w w') =
           concat (map (removalEvents P removed (nodes w')) [0 ..< length removed]) \<and>
         (0 \<le> beginOf bA \<and> beginOf bA < endOf w P eA \<or> removed = [])"
proof (cases "0 \<le> beginOf bA \<and> beginOf bA < endOf w P eA")
  case True
  let ?ch = "children (nodes w P)"
  define r where "r = rev (slice ?ch (beginOf bA) (endOf w P eA))"
  define cleared where
    "cleared = (\<lambda>n. if n \<in> set r then (nodes w n)\<lparr>parent := None\<rparr> else nodes w n)"
  define final where
    "final = cleared(P := (cleared P)\<lparr>children := removeItems ?ch (beginOf bA) (endOf w P eA)\<rparr>)"
  from True have b0: "0 \<le> beginOf bA" and be: "beginOf bA < endOf w P eA" by blast+
  obtain calls w1 where w1: "removeChildren w P bA eA = Inr (r, w1)" "nodes w1 = final"
    "log w1 = log w @ calls @ concat (map (removalEvents P r final) [0 ..< length r])"
    "emitted calls = []"
    using removeChildren_valid[OF refl refl refl b0 be r_def cleared_def final_def] by blast
  from ret w1(1) have eq: "removed = r" "w' = w1" by simp_all
  have entries: "newEntries w w1 = calls @ concat (map (removalEvents P r final) [0 ..< length r])"
    using w1(3) by simp
  have ev: "emitted (concat (map (removalEvents P r final) ks)) =
      concat (map (removalEvents P r final) ks)" for ks
    by (induction ks) (simp_all add: removalEvents_def)
  have "emitted (newEntries w w1) = concat (map (removalEvents P r final) [0 ..< length r])"
    unfolding entries using w1(4) ev by simp
  moreover have "children (nodes w1 P) = removeItems ?ch (beginOf bA) (endOf w P eA)"
    by (simp add: w1(2) final_def)
  moreover have "\<forall>c \<in> set r. parent (nodes w1 c) = None"
    by (simp add: w1(2) final_def cleared_def)
  ultimately show ?thesis using True by (simp add: eq r_def w1(2))
next
  case False
  show ?thesis
  proof (cases "beginOf bA = endOf w P eA \<and> children (nodes w P) = []")
    case True
    with removeChildren_empty[of bA w P eA] ret have "removed = []" "w' = w" by simp_all
    with True show ?thesis by (simp add: slice_def removeItems_def newEntries_def)
  next
    case other: False
    with False removeChildren_raises[of bA w P eA] ret show ?thesis by simp
  qed
qed

text \<open>What the events of a call see.\<close>

lemma addChildAt_insert_seen:
  assumes "addChildAt_insert w0 P c i = Inr (r, w')" and "log w0 = log w"
  shows "(\<forall>entry \<in> set (emitted (newEntries w w')). snd entry = nodes w') \<and>
         c \<in> set (children (nodes w' P)) \<and> parent (nodes w' c) = Some P"
proof -
  obtain w1 calls where w1: "addChildAt_insert w0 P c i = Inr (c, w1)"
    "children (nodes w1 P) = insertAt (children (nodes w0 P)) i c"
    "parent (nodes w1 c) = Some P"
    "log w1 = log w0 @ calls @
        [(Emit P (ChildAdded c P i), nodes w1), (Emit c (Added P), nodes w1)]"
    "emitted calls = []"
    using addChildAt_insert_returns[of w0 P c i] by blast
  from assms(1) w1(1) have eq: "w' = w1" by simp
  have "newEntries w w1 = calls @
        [(Emit P (ChildAdded c P i), nodes w1), (Emit c (Added P), nodes w1)]"
    using w1(4) assms(2) by simp
  then have "emitted (newEntries w w1) =
        [(Emit P (ChildAdded c P i), nodes w1), (Emit c (Added P), nodes w1)]"
    using w1(5) by simp
  with w1(2,3) show ?thesis by (simp add: eq insertAt_member)
qed

lemma addChildAt_seen:
  assumes ret: "addChildAt w P c i = Inr (r, w')"
  shows "(\<forall>entry \<in> set (emitted (newEntries w w')). snd entry = nodes w') \<and>
         c \<in> set (children (nodes w' P)) \<and> parent (nodes w' c) = Some P"
proof -
  have range: "\<not> (i < 0 \<or> i > int (length (children (nodes w P))))"
    using ret by (auto simp: addChildAt_def)
  show ?thesis
  proof (cases "parent (nodes w c)")
    case None
    with ret range have "addChildAt_insert w P c i = Inr (r, w')"
      by (simp add: addChildAt_def)
    from addChildAt_insert_seen[OF this refl] show ?thesis .
  next
    case (Some p)
    let ?k = "indexOf (children (nodes w p)) c"
    show ?thesis
    proof (cases "p = P \<and> ?k = i")
      case True
      then have pP: "p = P" by blast
      from True have ki: "indexOf (children (nodes w P)) c = i" unfolding pP by blast
      from ret range Some pP ki have eq: "w' = w" by (simp add: addChildAt_def Let_def)
      from ki range have "indexOf (children (nodes w P)) c \<noteq> - 1" by linarith
      then have "c \<in> set (children (nodes w P))" by (simp add: indexOf_absent)
      with Some pP show ?thesis by (simp add: eq newEntries_def)
    next
      case False
      define w1 where "w1 = (if ?k \<noteq> - 1
          then modify w p (\<lambda>n. n\<lparr>children := splice_remove (children n) (nat ?k)\<rparr>) else w)"
      have "addChildAt w P c i = addChildAt_insert w1 P c i"
        using range Some False by (auto simp: addChildAt_def Let_def w1_def)
      with ret have ins: "addChildAt_insert w1 P c i = Inr (r, w')" by simp
      have "log w1 = log w" by (simp add: w1_def)
      from addChildAt_insert_seen[OF ins this] show ?thesis .
    qed
  qed
qed

lemma setChildIndex_seen:
  assumes ret: "setChildIndex w P c i = Inr (u, w')"
  shows "(\<forall>entry \<in> set (emitted (newEntries w w')). snd entry = nodes w') \<and>
         c \<in> set (children (nodes w' P)) \<and> parent (nodes w' c) = Some P"
proof -
  from ret have "\<exists>r. addChildAt w P c i = Inr (r, w')"
    by (auto simp: setChildIndex_def getChildIndex_def Let_def
        split: if_splits sum.splits prod.splits)
  then show ?thesis using addChildAt_seen by blast
qed

lemma removeChildren_seen:
  assumes ret: "removeChildren w P bA eA = Inr (removed, w')"
  shows "(\<forall>entry \<in> set (emitted (newEntries w w')). snd entry = nodes w') \<and>
         (\<forall>x \<in> set removed. parent (nodes w' x) = None) \<and>
         (distinct (children (nodes w P)) \<longrightarrow>
            (\<forall>x \<in> set removed. x \<notin> set (children (nodes w' P))))"
proof -
  note facts = removeChildren_returns[OF ret]
  from facts have snap: "\<forall>entry \<in> set (emitted (newEntries w w')). snd entry = nodes w'"
    using removalEvents_snapshots[of P removed "nodes w'" "[0 ..< length removed]"] by simp
  from facts have par: "\<forall>x \<in> set removed. parent (nodes w' x) = None" by blast
  have away: "\<forall>x \<in> set removed. x \<notin> set (children (nodes w' P))"
    if dist: "distinct (children (nodes w P))"
  proof (cases "removed = []")
    case True
    then show ?thesis by simp
  next
    case False
    with facts have "0 \<le> beginOf bA" "beginOf bA \<le> endOf w P eA" by auto
    from slice_removeItems_disjoint[OF dist this] facts show ?thesis by auto
  qed
  from snap par away show ?thesis by blast
qed

lemma map_all_same: "\<forall>x \<in> set xs. f x = v \<Longrightarrow> map f xs = replicate (length xs) v"
  by (induction xs) auto

section \<open>Properties\<close>

text \<open>
  C1. For \<open>removeChildren\<close>, \<open>addChildAt\<close> and \<open>setChildIndex\<close> (which goes through
  \<open>addChildAt\<close>): every event of the call is emitted in the store in which the call
  returns. In that store every removed child has no parent and, the children of a
  node holding no node twice, is absent from the parent's children; the added child
  is among the children of the target and has the target as parent.
\<close>

theorem listeners_see_final_state:
  "(removeChildren w P bA eA = Inr (removed, w1) \<longrightarrow>
      (\<forall>entry \<in> set (emitted (newEntries w w1)). snd entry = nodes w1) \<and>
      (\<forall>x \<in> set removed. parent (nodes w1 x) = None) \<and>
      (distinct (children (nodes w P)) \<longrightarrow>
         (\<forall>x \<in> set removed. x \<notin> set (children (nodes w1 P))))) \<and>
   (addChildAt w P c i = Inr (r, w2) \<longrightarrow>
      (\<forall>entry \<in> set (emitted (newEntries w w2)). snd entry = nodes w2) \<and>
      c \<in> set (children (nodes w2 P)) \<and> parent (nodes w2 c) = Some P) \<and>
   (setChildIndex w P c i = Inr (u, w3) \<longrightarrow>
      (\<forall>entry \<in> set (emitted (newEntries w w3)). snd entry = nodes w3) \<and>
      c \<in> set (children (nodes w3 P)) \<and> parent (nodes w3 c) = Some P)"
  using removeChildren_seen[of w P bA eA removed w1] addChildAt_seen[of w P c i r w2]
    setChildIndex_seen[of w P c i u w3]
  by blast

theorem listeners_see_final_state_witness:
  "returned (removeChildren tree3 0 (Some 1) None) = Some [3, 2] \<and>
   map snd (emitted (newEntries tree3 (world_of (removeChildren tree3 0 (Some 1) None)))) =
     replicate 4 (nodes (world_of (removeChildren tree3 0 (Some 1) None))) \<and>
   parent (nodes (world_of (removeChildren tree3 0 (Some 1) None)) 3) = None \<and>
   parent (nodes (world_of (removeChildren tree3 0 (Some 1) None)) 2) = None \<and>
   3 \<notin> set (children (nodes (world_of (removeChildren tree3 0 (Some 1) None)) 0)) \<and>
   2 \<notin> set (children (nodes (world_of (removeChildren tree3 0 (Some 1) None)) 0)) \<and>
   returned (addChildAt tree3 5 2 0) = Some 2 \<and>
   map snd (emitted (newEntries tree3 (world_of (addChildAt tree3 5 2 0)))) =
     replicate 2 (nodes (world_of (addChildAt tree3 5 2 0))) \<and>
   2 \<in> set (children (nodes (world_of (addChildAt tree3 5 2 0)) 5)) \<and>
   parent (nodes (world_of (addChildAt tree3 5 2 0)) 2) = Some 5 \<and>
   returned (setChildIndex tree3 0 3 0) = Some () \<and>
   map snd (emitted (newEntries tree3 (world_of (setChildIndex tree3 0 3 0)))) =
     replicate 2 (nodes (world_of (setChildIndex tree3 0 3 0))) \<and>
   3 \<in> set (children (nodes (world_of (setChildIndex tree3 0 3 0)) 0)) \<and>
   parent (nodes (world_of (setChildIndex tree3 0 3 0)) 3) = Some 0"
proof -
  define W1 where "W1 = world_of (removeChildren tree3 0 (Some 1) None)"
  define W2 where "W2 = world_of (addChildAt tree3 5 2 0)"
  define W3 where "W3 = world_of (setChildIndex tree3 0 3 0)"
  have run1: "removeChildren tree3 0 (Some 1) None = Inr ([3, 2], W1)"
    unfolding W1_def by (simp add: remove_defs)
  have run2: "addChildAt tree3 5 2 0 = Inr (2, W2)"
    unfolding W2_def by (simp add: run_defs)
  have run3: "setChildIndex tree3 0 3 0 = Inr ((), W3)"
    unfolding W3_def by (simp add: setChildIndex_def run_defs)
  have n1: "length (emitted (newEntries tree3 W1)) = 4"
    unfolding W1_def by (simp add: remove_defs newEntries_def emitted_def isEmit_def)
  have n2: "length (emitted (newEntries tree3 W2)) = 2"
    unfolding W2_def by (simp add: run_defs newEntries_def emitted_def isEmit_def)
  have n3: "length (emitted (newEntries tree3 W3)) = 2"
    unfolding W3_def by (simp add: setChildIndex_def run_defs newEntries_def emitted_def isEmit_def)
  have d: "distinct (children (nodes tree3 0))" by (simp add: tree3_def)
  from listeners_see_final_state [of tree3 0 "Some 1" None "[3, 2]" W1 2 0 2 W2 "()" W3] run1 d
  have f1: "\<forall>entry \<in> set (emitted (newEntries tree3 W1)). snd entry = nodes W1"
    "parent (nodes W1 3) = None" "parent (nodes W1 2) = None"
    "3 \<notin> set (children (nodes W1 0))" "2 \<notin> set (children (nodes W1 0))"
    by simp_all
  from listeners_see_final_state [of tree3 5 None None "[]" W1 2 0 2 W2 "()" W3] run2
  have f2: "\<forall>entry \<in> set (emitted (newEntries tree3 W2)). snd entry = nodes W2"
    "2 \<in> set (children (nodes W2 5))" "parent (nodes W2 2) = Some 5"
    by simp_all
  from listeners_see_final_state [of tree3 0 None None "[]" W1 3 0 3 W2 "()" W3] run3
  have f3: "\<forall>entry \<in> set (emitted (newEntries tree3 W3)). snd entry = nodes W3"
    "3 \<in> set (children (nodes W3 0))" "parent (nodes W3 3) = Some 0"
    by simp_all
  show ?thesis
    unfolding W1_def [symmetric] W2_def [symmetric] W3_def [symmetric]
    using map_all_same [OF f1(1)] map_all_same [OF f2(1)] map_all_same [OF f3(1)]
      f1(2-) f2(2-) f3(2-)
    by (simp add: run1 run2 run3 n1 n2 n3 returned_def)
qed

text \<open>
  C2 (as amended). For every node \<open>P\<close>, every child \<open>c\<close> and every index \<open>i\<close> from 0
  to the length of \<open>P.children\<close> (the length included), \<open>addChildAt(c, i)\<close> on \<open>P\<close>
  returns \<open>c\<close>, after it \<open>getChildAt(P, i)\<close> returns \<open>c\<close>, and \<open>c.parent\<close> is \<open>P\<close>;
  except when \<open>c\<close> is already a child of \<open>P\<close> and \<open>i\<close> is the length: the detach
  shortens the array first, and \<open>c\<close> lands at the last index, \<open>i - 1\<close>.
\<close>

theorem addChildAt_then_getChildAt:
  assumes lo: "0 \<le> i" and hi: "i \<le> int (length (children (nodes w P)))"
    and notlast: "\<not> (parent (nodes w c) = Some P \<and> c \<in> set (children (nodes w P)) \<and>
                     i = int (length (children (nodes w P))))"
  shows "\<exists>w'. addChildAt w P c i = Inr (c, w') \<and> getChildAt w' P i = Inr (c, w') \<and>
              parent (nodes w' c) = Some P"
proof -
  let ?ch = "children (nodes w P)"
  have lookup: "getChildAt w' P i = Inr (c, w') \<and> parent (nodes w' c) = Some P"
    if ins: "children (nodes w' P) = insertAt (children (nodes w0 P)) i c"
      and par: "parent (nodes w' c) = Some P"
      and len: "i \<le> int (length (children (nodes w0 P)))" for w0 w'
  proof -
    from insertAt_nth[OF lo len, of c] ins
    have "nat i < length (children (nodes w' P))" "children (nodes w' P) ! nat i = c"
      by simp_all
    moreover from this(1) lo have "i < int (length (children (nodes w' P)))" by linarith
    ultimately show ?thesis using lo par by (simp add: getChildAt_def)
  qed
  show ?thesis
  proof (cases "parent (nodes w c)")
    case None
    obtain w' where w': "addChildAt_insert w P c i = Inr (c, w')"
      "children (nodes w' P) = insertAt ?ch i c" "parent (nodes w' c) = Some P"
      using addChildAt_insert_returns[of w P c i] by blast
    have "addChildAt w P c i = Inr (c, w')"
      using lo hi None w'(1) by (simp add: addChildAt_def)
    with lookup[OF w'(2,3) hi] show ?thesis by blast
  next
    case (Some p)
    let ?k = "indexOf (children (nodes w p)) c"
    show ?thesis
    proof (cases "p = P \<and> ?k = i")
      case True
      then have pP: "p = P" and ki: "indexOf ?ch c = i" by blast+
      from ki lo have "indexOf ?ch c \<noteq> - 1" by linarith
      then have "c \<in> set ?ch" by (simp add: indexOf_absent)
      from indexOf_member[OF this] ki
      have "nat i < length ?ch" "?ch ! nat i = c" by simp_all
      moreover from this(1) lo have "i < int (length ?ch)" by linarith
      ultimately have "getChildAt w P i = Inr (c, w)" using lo by (simp add: getChildAt_def)
      moreover have "addChildAt w P c i = Inr (c, w)"
        using lo hi Some pP ki by (simp add: addChildAt_def Let_def)
      ultimately show ?thesis using Some pP by blast
    next
      case False
      define w1 where "w1 = (if ?k \<noteq> - 1
          then modify w p (\<lambda>n. n\<lparr>children := splice_remove (children n) (nat ?k)\<rparr>) else w)"
      have step: "addChildAt w P c i = addChildAt_insert w1 P c i"
        using lo hi Some False by (auto simp: addChildAt_def Let_def w1_def)
      have len1: "i \<le> int (length (children (nodes w1 P)))"
      proof (cases "p = P \<and> ?k \<noteq> - 1")
        case True
        then have pP: "p = P" by blast
        from True have kne: "indexOf ?ch c \<noteq> - 1" unfolding pP by blast
        then have mem: "c \<in> set ?ch" by (simp add: indexOf_absent)
        with notlast Some pP have "i \<noteq> int (length ?ch)" by blast
        moreover have "nat (indexOf ?ch c) < length ?ch" using indexOf_member[OF mem] by simp
        moreover have "w1 = modify w P
            (\<lambda>n. n\<lparr>children := splice_remove (children n) (nat (indexOf ?ch c))\<rparr>)"
          unfolding w1_def pP using kne by simp
        ultimately show ?thesis using hi
          by (simp add: splice_remove_length)
      next
        case False
        then show ?thesis using hi by (auto simp: w1_def)
      qed
      obtain w' where w': "addChildAt_insert w1 P c i = Inr (c, w')"
        "children (nodes w' P) = insertAt (children (nodes w1 P)) i c"
        "parent (nodes w' c) = Some P"
        using addChildAt_insert_returns[of w1 P c i] by blast
      from lookup[OF w'(2,3) len1] step w'(1) show ?thesis by simp
    qed
  qed
qed

theorem addChildAt_then_getChildAt_witness:
  "(0::int) \<le> 1 \<and> 1 \<le> int (length (children (nodes tree3 0))) \<and>
   returned (addChildAt tree3 0 3 1) = Some 3 \<and>
   children (nodes (world_of (addChildAt tree3 0 3 1)) 0) = [1, 3, 2] \<and>
   returned (getChildAt (world_of (addChildAt tree3 0 3 1)) 0 1) = Some 3 \<and>
   parent (nodes (world_of (addChildAt tree3 0 3 1)) 3) = Some 0"
  using addChildAt_then_getChildAt [of 1 tree3 0 3]
  by (simp add: run_defs)

text \<open>
  The claim as stated fails: in the tree with the children 1, 2, 3 under node 0,
  \<open>addChildAt(1, 3)\<close> is accepted (3 is the length), the children become 2, 3, 1 and
  \<open>getChildAt(3)\<close> raises.
\<close>

theorem addChildAt_append_member_counterexample:
  "(0::int) \<le> 3 \<and> 3 \<le> int (length (children (nodes tree3 0))) \<and>
   returned (addChildAt tree3 0 1 3) = Some 1 \<and>
   children (nodes (world_of (addChildAt tree3 0 1 3)) 0) = [2, 3, 1] \<and>
   raised (getChildAt (world_of (addChildAt tree3 0 1 3)) 0 3) = Some IndexOutOfBounds"
  by (simp add: run_defs)

text \<open>
  C3 (as amended). \<open>removeChildren(beginIndex, endIndex)\<close> raises, and then a
  RangeError, exactly when the arguments (after the defaults) are neither a range
  with \<open>0 \<le> beginIndex < end\<close> nor the empty range \<open>beginIndex = end\<close> on a node
  without children. The source tests \<open>range > 0 && range <= end\<close>, and \<open>range <= end\<close>
  is \<open>beginIndex \<ge> 0\<close>: a positive range with a negative \<open>beginIndex\<close> raises.
\<close>

theorem removeChildren_raises_iff:
  "raised (removeChildren w P bA eA) =
     (if (0 \<le> beginOf bA \<and> beginOf bA < endOf w P eA) \<or>
         (beginOf bA = endOf w P eA \<and> children (nodes w P) = [])
      then None else Some RangeError)"
proof (cases "0 \<le> beginOf bA \<and> beginOf bA < endOf w P eA")
  case True
  then have "\<exists>r w'. removeChildren w P bA eA = Inr (r, w')"
    using removeChildren_valid[of "beginOf bA" bA "endOf w P eA" w P eA] by blast
  with True show ?thesis by (auto simp: raised_def)
next
  case False
  show ?thesis
  proof (cases "beginOf bA = endOf w P eA \<and> children (nodes w P) = []")
    case True
    with removeChildren_empty[of bA w P eA] show ?thesis by (simp add: raised_def)
  next
    case other: False
    with False removeChildren_raises[of bA w P eA] show ?thesis by (simp add: raised_def)
  qed
qed

theorem removeChildren_raises_iff_witness:
  "raised (removeChildren tree3 0 (Some 3) (Some 1)) = Some RangeError \<and>
   raised (removeChildren tree3 0 (Some 3) None) = Some RangeError \<and>
   raised (removeChildren tree3 5 None None) = None \<and>
   raised (removeChildren tree3 0 (Some 2) (Some 3)) = None"
  using removeChildren_raises_iff [of tree3 0 "Some 3" "Some 1"]
    removeChildren_raises_iff [of tree3 0 "Some 3" None]
    removeChildren_raises_iff [of tree3 5 None None]
    removeChildren_raises_iff [of tree3 0 "Some 2" "Some 3"]
  by (simp add: beginOf_def endOf_def tree3_def blank_def)

text \<open>
  The claim as stated fails: \<open>removeChildren(-1, 1)\<close> has the positive range 2 and
  raises.
\<close>

theorem removeChildren_negative_begin_counterexample:
  "(0::int) < 1 - (- 1) \<and>
   raised (removeChildren tree3 0 (Some (- 1)) (Some 1)) = Some RangeError"
  by (simp add: removeChildren_def Let_def raised_def)

text \<open>
  C4 (as amended). For indices with \<open>0 \<le> b < e \<le> length\<close> (after the defaults),
  \<open>removeChildren(b, e)\<close> returns the \<open>e - b\<close> children that were at the indices
  \<open>e - 1\<close> down to \<open>b\<close>, in this order; \<open>P.children\<close> loses exactly these positions
  and is shorter by \<open>e - b\<close>; every returned child has no parent afterwards. (The
  removal from the array is that of \<open>removeItems\<close>, as the spec describes it.)
\<close>

theorem removeChildren_range:
  assumes b: "b = beginOf bA" and e: "e = endOf w P eA"
    and b0: "0 \<le> b" and be: "b < e" and elen: "e \<le> int (length (children (nodes w P)))"
  shows "\<exists>removed w'. removeChildren w P bA eA = Inr (removed, w') \<and>
           removed = rev (map ((!) (children (nodes w P))) [nat b ..< nat e]) \<and>
           length removed = nat (e - b) \<and>
           children (nodes w' P) = take (nat b) (children (nodes w P)) @ drop (nat e) (children (nodes w P)) \<and>
           length (children (nodes w' P)) = length (children (nodes w P)) - nat (e - b) \<and>
           (\<forall>c \<in> set removed. parent (nodes w' c) = None)"
proof -
  let ?ch = "children (nodes w P)"
  define removed where "removed = rev (slice ?ch b e)"
  define cleared where
    "cleared = (\<lambda>n. if n \<in> set removed then (nodes w n)\<lparr>parent := None\<rparr> else nodes w n)"
  define final where "final = cleared(P := (cleared P)\<lparr>children := removeItems ?ch b e\<rparr>)"
  obtain w' where w': "removeChildren w P bA eA = Inr (removed, w')" "nodes w' = final"
    using removeChildren_valid[OF b e refl b0 be removed_def cleared_def final_def] by blast
  have le: "b \<le> e" using be by simp
  have r: "removed = rev (map ((!) ?ch) [nat b ..< nat e])"
    by (simp add: removed_def slice_nth[OF b0 le elen])
  have len: "length removed = nat (e - b)"
    by (simp add: removed_def slice_length[OF b0 le elen])
  have chf: "children (nodes w' P) = removeItems ?ch b e"
    by (simp add: w'(2) final_def)
  have par: "\<forall>c \<in> set removed. parent (nodes w' c) = None"
    by (simp add: w'(2) final_def cleared_def)
  from w'(1) r len chf par removeItems_length[OF b0 le elen, of ] show ?thesis
    by (simp add: removeItems_def)
qed

theorem removeChildren_range_witness:
  "(1::int) = beginOf (Some 1) \<and> 3 = endOf tree3 0 None \<and> (0::int) \<le> 1 \<and> (1::int) < 3 \<and>
   3 \<le> int (length (children (nodes tree3 0))) \<and>
   returned (removeChildren tree3 0 (Some 1) None) = Some [3, 2] \<and>
   children (nodes (world_of (removeChildren tree3 0 (Some 1) None)) 0) = [1] \<and>
   parent (nodes (world_of (removeChildren tree3 0 (Some 1) None)) 3) = None \<and>
   parent (nodes (world_of (removeChildren tree3 0 (Some 1) None)) 2) = None"
  using removeChildren_range [of 1 "Some 1" 3 tree3 0 None]
  by (simp add: remove_defs beginOf_def endOf_def)

text \<open>
  The claim as stated fails: with the children 1, 2, 3, \<open>removeChildren(1, 5)\<close> has
  \<open>e - b = 4\<close> and returns the two children 3 and 2; the loop skips the indices
  beyond the array.
\<close>

theorem removeChildren_end_beyond_length_counterexample:
  "(1::int) < 5 \<and>
   returned (removeChildren tree3 0 (Some 1) (Some 5)) = Some [3, 2] \<and>
   children (nodes (world_of (removeChildren tree3 0 (Some 1) (Some 5))) 0) = [1] \<and>
   length [3::ref, 2] \<noteq> nat (5 - 1)"
  by (simp add: remove_defs)

text \<open>
  C5. In every call of \<open>removeChildren\<close> that returns, the removal list is the
  reverse of the children in the range, and the events of the call are, for each
  position \<open>i\<close> of the removal list in order, "childRemoved" on the parent with
  \<open>(removed[i], parent, i)\<close> followed by "removed" on \<open>removed[i]\<close> with \<open>(parent)\<close>;
  every one of them is emitted in the final store, whose children are already
  spliced.
\<close>

theorem removeChildren_events:
  assumes "removeChildren w P bA eA = Inr (removed, w')"
  shows "removed = rev (slice (children (nodes w P)) (beginOf bA) (endOf w P eA)) \<and>
         children (nodes w' P) =
           removeItems (children (nodes w P)) (beginOf bA) (endOf w P eA) \<and>
         emitted (newEntries w w') =
           concat (map (removalEvents P removed (nodes w')) [0 ..< length removed])"
  using removeChildren_returns[OF assms] by blast

theorem removeChildren_events_witness:
  "returned (removeChildren tree3 0 (Some 1) None) = Some [3, 2] \<and>
   children (nodes (world_of (removeChildren tree3 0 (Some 1) None)) 0) = [1] \<and>
   map fst (emitted (newEntries tree3 (world_of (removeChildren tree3 0 (Some 1) None)))) =
     [Emit 0 (ChildRemoved 3 0 0), Emit 3 (Removed 0),
      Emit 0 (ChildRemoved 2 0 1), Emit 2 (Removed 0)] \<and>
   map (\<lambda>entry. children (snd entry 0))
     (emitted (newEntries tree3 (world_of (removeChildren tree3 0 (Some 1) None)))) =
     [[1], [1], [1], [1]]"
proof -
  define W where "W = world_of (removeChildren tree3 0 (Some 1) None)"
  have run: "removeChildren tree3 0 (Some 1) None = Inr ([3, 2], W)"
    unfolding W_def by (simp add: remove_defs)
  have ch: "children (nodes tree3 0) = [1, 2, 3]" by (simp add: tree3_def)
  note ev = removeChildren_events [OF run]
  from ev have after: "children (nodes W 0) = [1]"
    by (simp add: ch removeItems_def beginOf_def endOf_def)
  from ev have entries: "emitted (newEntries tree3 W) =
      removalEvents 0 [3, 2] (nodes W) 0 @ removalEvents 0 [3, 2] (nodes W) 1"
    by (simp add: upt_rec_numeral)
  show ?thesis
    unfolding W_def [symmetric] entries
    by (simp add: run returned_def removalEvents_def after)
qed

text \<open>
  C6. If \<open>c\<close>'s parent is \<open>P\<close> and \<open>c\<close> already occupies index \<open>i\<close> of \<open>P.children\<close>, then
  \<open>addChildAt(c, i)\<close> on \<open>P\<close> is a no-op: it returns \<open>c\<close> and the world it returns in is
  the world it was called in, so the children, every flag of \<open>c\<close> (\<open>didChange\<close>,
  \<open>didViewUpdate\<close>, \<open>updateFlags\<close>) and the log of events are unchanged. The children
  of a node hold no node twice, which makes "the index that \<open>c\<close> occupies" the
  index that \<open>indexOf\<close> finds.
\<close>

theorem addChildAt_same_position_noop:
  assumes par: "parent (nodes w c) = Some P"
    and lo: "0 \<le> i" and hi: "nat i < length (children (nodes w P))"
    and at: "children (nodes w P) ! nat i = c"
    and dist: "distinct (children (nodes w P))"
  shows "addChildAt w P c i = Inr (c, w)"
proof -
  have "indexOf (children (nodes w P)) c = i"
    using indexOf_distinct[OF dist hi] at lo by simp
  moreover have "i \<le> int (length (children (nodes w P)))" using hi lo by linarith
  ultimately show ?thesis using par lo by (simp add: addChildAt_def Let_def)
qed

theorem addChildAt_same_position_noop_witness:
  "parent (nodes tree3 2) = Some 0 \<and> (0::int) \<le> 1 \<and> nat 1 < length (children (nodes tree3 0)) \<and>
   children (nodes tree3 0) ! nat 1 = 2 \<and> distinct (children (nodes tree3 0)) \<and>
   addChildAt tree3 0 2 1 = Inr (2, tree3)"
  using addChildAt_same_position_noop [of tree3 2 0 1]
  by (simp add: tree3_def blank_def)

text \<open>
  C7. When \<open>c\<close> has a parent \<open>Q\<close> different from the target \<open>P\<close> and the index is
  accepted, \<open>addChildAt(c, i)\<close> emits exactly two events, "childAdded" on \<open>P\<close> with
  \<open>(c, P, i)\<close> and then "added" on \<open>c\<close> with \<open>(P)\<close>: the detach from \<open>Q\<close> emits no
  "removed" and no "childRemoved".
\<close>

theorem addChildAt_reparent_events:
  assumes par: "parent (nodes w c) = Some Q" and other: "Q \<noteq> P"
    and lo: "0 \<le> i" and hi: "i \<le> int (length (children (nodes w P)))"
  shows "\<exists>w'. addChildAt w P c i = Inr (c, w') \<and>
           emitted (newEntries w w') =
             [(Emit P (ChildAdded c P i), nodes w'), (Emit c (Added P), nodes w')]"
proof -
  define w1 where "w1 = (if indexOf (children (nodes w Q)) c \<noteq> - 1
      then modify w Q (\<lambda>n. n\<lparr>children :=
             splice_remove (children n) (nat (indexOf (children (nodes w Q)) c))\<rparr>)
      else w)"
  have step: "addChildAt w P c i = addChildAt_insert w1 P c i"
    using lo hi par other by (simp add: addChildAt_def Let_def w1_def)
  have l1: "log w1 = log w" by (simp add: w1_def)
  obtain w' calls where w': "addChildAt_insert w1 P c i = Inr (c, w')"
    "log w' = log w1 @ calls @
        [(Emit P (ChildAdded c P i), nodes w'), (Emit c (Added P), nodes w')]"
    "emitted calls = []"
    using addChildAt_insert_returns[of w1 P c i] by blast
  have "newEntries w w' = calls @
        [(Emit P (ChildAdded c P i), nodes w'), (Emit c (Added P), nodes w')]"
    using w'(2) l1 by simp
  then have "emitted (newEntries w w') =
        [(Emit P (ChildAdded c P i), nodes w'), (Emit c (Added P), nodes w')]"
    using w'(3) by simp
  with step w'(1) show ?thesis by simp
qed

text \<open>Node 2 moves from node 0 to the empty node 5.\<close>

theorem addChildAt_reparent_events_witness:
  "parent (nodes tree3 2) = Some 0 \<and> (0::ref) \<noteq> 5 \<and> (0::int) \<le> 0 \<and>
   0 \<le> int (length (children (nodes tree3 5))) \<and>
   returned (addChildAt tree3 5 2 0) = Some 2 \<and>
   map fst (emitted (newEntries tree3 (world_of (addChildAt tree3 5 2 0)))) =
     [Emit 5 (ChildAdded 2 5 0), Emit 2 (Added 5)] \<and>
   children (nodes (world_of (addChildAt tree3 5 2 0)) 0) = [1, 3] \<and>
   children (nodes (world_of (addChildAt tree3 5 2 0)) 5) = [2]"
  using addChildAt_reparent_events [of tree3 2 0 5 0]
  by (simp add: run_defs newEntries_def emitted_def isEmit_def)

text \<open>
  C8. For distinct children \<open>a\<close> at index \<open>i\<close> and \<open>b\<close> at index \<open>j\<close> of \<open>P\<close>,
  \<open>swapChildren(a, b)\<close> returns in the world it was called in with one change: the
  children of \<open>P\<close> hold \<open>b\<close> at \<open>i\<close> and \<open>a\<close> at \<open>j\<close>. No other slot, no parent
  back-reference, no flag and no other node changes, and nothing is added to the log
  (no event, no call on the layer group). \<open>swapChildren(a, a)\<close> changes nothing.
\<close>

theorem swapChildren_exchanges_two_slots:
  assumes ne: "a \<noteq> b" and dist: "distinct (children (nodes w P))"
    and i: "i < length (children (nodes w P))" and j: "j < length (children (nodes w P))"
    and ai: "children (nodes w P) ! i = a" and bj: "children (nodes w P) ! j = b"
  shows "swapChildren w P a b =
           Inr ((), w\<lparr>nodes := (nodes w)
                    (P := (nodes w P)\<lparr>children := (children (nodes w P))[i := b, j := a]\<rparr>)\<rparr>)
         \<and> swapChildren w P a a = Inr ((), w)"
proof -
  have ia: "indexOf (children (nodes w P)) a = int i"
    using indexOf_distinct[OF dist i] ai by simp
  have jb: "indexOf (children (nodes w P)) b = int j"
    using indexOf_distinct[OF dist j] bj by simp
  show ?thesis
    using ne by (simp add: swapChildren_def getChildIndex_def Let_def ia jb modify_def)
qed

theorem swapChildren_exchanges_two_slots_witness:
  "(1::ref) \<noteq> 3 \<and> distinct (children (nodes tree3 0)) \<and>
   0 < length (children (nodes tree3 0)) \<and> 2 < length (children (nodes tree3 0)) \<and>
   children (nodes tree3 0) ! 0 = 1 \<and> children (nodes tree3 0) ! 2 = 3 \<and>
   returned (swapChildren tree3 0 1 3) = Some () \<and>
   children (nodes (world_of (swapChildren tree3 0 1 3)) 0) = [3, 2, 1] \<and>
   parent (nodes (world_of (swapChildren tree3 0 1 3)) 1) = Some 0 \<and>
   parent (nodes (world_of (swapChildren tree3 0 1 3)) 3) = Some 0 \<and>
   log (world_of (swapChildren tree3 0 1 3)) = []"
  using swapChildren_exchanges_two_slots [of 1 3 tree3 0 0 2]
  by (simp add: tree3_def blank_def returned_def world_of_def)

text \<open>
  C9. When \<open>removeChildren\<close>, \<open>removeChildAt\<close>, \<open>getChildAt\<close>, \<open>getChildIndex\<close>,
  \<open>setChildIndex\<close>, \<open>addChildAt\<close> or \<open>swapChildren\<close> raises, the world at the throw is
  the world of the call: children, parent back-references, flags and log are as before.
\<close>

theorem errors_leave_state_unchanged:
  "(removeChildren w P bA eA = Inl (err, w') \<longrightarrow> w' = w) \<and>
   (removeChildAt w P i = Inl (err, w') \<longrightarrow> w' = w) \<and>
   (getChildAt w P i = Inl (err, w') \<longrightarrow> w' = w) \<and>
   (getChildIndex w P c = Inl (err, w') \<longrightarrow> w' = w) \<and>
   (setChildIndex w P c i = Inl (err, w') \<longrightarrow> w' = w) \<and>
   (addChildAt w P c i = Inl (err, w') \<longrightarrow> w' = w) \<and>
   (swapChildren w P c c2 = Inl (err, w') \<longrightarrow> w' = w)"
proof -
  have "getChildAt w P i = Inl (err, w') \<longrightarrow> w' = w"
    by (auto simp: getChildAt_def split: if_splits)
  moreover have "getChildIndex w P c = Inl (err, w') \<longrightarrow> w' = w"
    by (auto simp: getChildIndex_def Let_def split: if_splits)
  moreover have "addChildAt w P c i = Inl (err, w') \<longrightarrow> w' = w"
    using addChildAt_raises[of w P c i "(err, w')"] by auto
  ultimately show ?thesis
    using removeChildren_raises_same[of w P bA eA err w']
      removeChildAt_raises_same[of w P i err w']
      setChildIndex_raises_same[of w P c i err w']
      swapChildren_raises_same[of w P c c2 err w']
    by blast
qed

theorem errors_leave_state_unchanged_witness:
  "removeChildren tree3 0 (Some 3) (Some 1) = Inl (RangeError, tree3) \<and>
   removeChildAt tree3 0 3 = Inl (IndexOutOfBounds, tree3) \<and>
   getChildAt tree3 0 (- 1) = Inl (IndexOutOfBounds, tree3) \<and>
   getChildIndex tree3 0 7 = Inl (NotAChild, tree3) \<and>
   setChildIndex tree3 0 7 1 = Inl (NotAChild, tree3) \<and>
   addChildAt tree3 0 7 4 = Inl (IndexOutOfBounds, tree3) \<and>
   swapChildren tree3 0 1 7 = Inl (NotAChild, tree3)"
  using errors_leave_state_unchanged [of tree3 0 "Some 3" "Some 1" RangeError tree3 3 7 1]
  by (simp add: removeChildren_def removeChildAt_def getChildAt_def getChildIndex_def
      setChildIndex_def addChildAt_def swapChildren_def Let_def tree3_def blank_def)

text \<open>
  C10. \<open>swapChildren(x, x)\<close> returns without raising and leaves the whole state as it
  was, for every node \<open>x\<close>, member of the children or not: the identity test comes
  before the membership test.
\<close>

theorem swapChildren_same_returns:
  "swapChildren w this x x = Inr ((), w)"
  by (simp add: swapChildren_def)

theorem swapChildren_same_returns_witness:
  "swapChildren tree3 0 7 7 = Inr ((), tree3)"
  by (rule swapChildren_same_returns)

end
